theory Spec2Isabelle
  imports Main "HOL-Library.Word" "HOL-Library.Char_ord"
begin

unbundle bit_operations_syntax

section \<open>Data model\<close>

text \<open>
  A Go \<open>[]byte\<close> is a list of 8-bit words. A Go \<open>string\<close> is a sequence of bytes as well
  (\<open>len\<close> counts bytes and indexing reads bytes), which is what a HOL \<open>string\<close> is.
\<close>

type_synonym byte = "8 word"

text \<open>The two errors of \<open>encoding/hex\<close>, and the two run-time panics the package can reach.\<close>

datatype error = ErrLength | InvalidByteError char

datatype panic = IndexOutOfRange | SliceBoundsOutOfRange

text \<open>
  What a call does: it returns its value with a nil error, returns a non-nil error, or
  panics.
\<close>

datatype 'a outcome = Returns 'a | Fails error | Panics panic

section \<open>Keccak-256 (\<open>sha3.NewLegacyKeccak256\<close>)\<close>

text \<open>
  The hasher of \<open>golang.org/x/crypto/sha3\<close>: the Keccak sponge with a rate of 136 bytes,
  the legacy domain byte \<open>0x01\<close> and 32 bytes of output, over the permutation
  Keccak-f[1600] on 25 lanes of 64 bits, lane \<open>(x, y)\<close> at index \<open>x + 5 * y\<close>.
\<close>

type_synonym lane = "64 word"

definition RC :: "lane list" where
  "RC = [0x0000000000000001, 0x0000000000008082, 0x800000000000808A, 0x8000000080008000,
         0x000000000000808B, 0x0000000080000001, 0x8000000080008081, 0x8000000000008009,
         0x000000000000008A, 0x0000000000000088, 0x0000000080008009, 0x000000008000000A,
         0x000000008000808B, 0x800000000000008B, 0x8000000000008089, 0x8000000000008003,
         0x8000000000008002, 0x8000000000000080, 0x000000000000800A, 0x800000008000000A,
         0x8000000080008081, 0x8000000000008080, 0x0000000080000001, 0x8000000080008008]"

definition rotc :: "nat list" where
  "rotc = [ 0,  1, 62, 28, 27,
           36, 44,  6, 55, 20,
            3, 10, 43, 25, 39,
           41, 45, 15, 21,  8,
           18,  2, 61, 56, 14]"

definition theta :: "lane list \<Rightarrow> lane list" where
  "theta a =
     (let c = map (\<lambda>x. a ! x XOR a ! (x + 5) XOR a ! (x + 10) XOR a ! (x + 15) XOR a ! (x + 20))
                [0..<5];
          d = map (\<lambda>x. c ! ((x + 4) mod 5) XOR word_rotl 1 (c ! ((x + 1) mod 5))) [0..<5]
      in map (\<lambda>i. a ! i XOR d ! (i mod 5)) [0..<25])"

definition rho_pi :: "lane list \<Rightarrow> lane list" where
  "rho_pi a =
     map (\<lambda>i. let x = i mod 5; y = i div 5; j = (x + 3 * y) mod 5 + 5 * x
               in word_rotl (rotc ! j) (a ! j)) [0..<25]"

definition chi :: "lane list \<Rightarrow> lane list" where
  "chi b =
     map (\<lambda>i. let x = i mod 5; y = i div 5
               in b ! i XOR (NOT (b ! ((x + 1) mod 5 + 5 * y)) AND b ! ((x + 2) mod 5 + 5 * y)))
         [0..<25]"

definition iota :: "nat \<Rightarrow> lane list \<Rightarrow> lane list" where
  "iota r a = a[0 := a ! 0 XOR RC ! r]"

definition keccak_round :: "nat \<Rightarrow> lane list \<Rightarrow> lane list" where
  "keccak_round r a = iota r (chi (rho_pi (theta a)))"

definition keccakF1600 :: "lane list \<Rightarrow> lane list" where
  "keccakF1600 a = fold keccak_round [0..<24] a"

text \<open>Lanes are read from and written to bytes in little-endian order.\<close>

definition load64 :: "byte list \<Rightarrow> lane" where
  "load64 bs = foldr (\<lambda>b acc. ucast b OR push_bit 8 acc) bs 0"

definition store64 :: "lane \<Rightarrow> byte list" where
  "store64 w = map (\<lambda>i. ucast (drop_bit (8 * i) w)) [0..<8]"

definition xorIn :: "lane list \<Rightarrow> byte list \<Rightarrow> lane list" where
  "xorIn a block =
     map (\<lambda>i. if i < 17 then a ! i XOR load64 (take 8 (drop (8 * i) block)) else a ! i) [0..<25]"

fun absorb :: "lane list \<Rightarrow> byte list \<Rightarrow> lane list" where
  "absorb a bs =
     (if length bs < 136 then a
      else absorb (keccakF1600 (xorIn a (take 136 bs))) (drop 136 bs))"

declare absorb.simps [simp del]

definition pad :: "byte list \<Rightarrow> byte list" where
  "pad m =
     (let q = 136 - length m mod 136
      in if q = 1 then m @ [0x81] else m @ [0x01] @ replicate (q - 2) 0 @ [0x80])"

definition Keccak :: "byte list \<Rightarrow> byte list" where
  "Keccak input = take 32 (concat (map store64 (absorb (replicate 25 0) (pad input))))"

section \<open>Hexadecimal codec (\<open>encoding/hex\<close>)\<close>

definition hextable :: string where
  "hextable = ''0123456789abcdef''"

text \<open>\<open>hex.EncodeToString\<close>: two characters per byte, high nibble first, in lower case.\<close>

definition EncodeToString :: "byte list \<Rightarrow> string" where
  "EncodeToString src =
     concat (map (\<lambda>v. [hextable ! unat (drop_bit 4 v), hextable ! unat (v AND 0x0f)]) src)"

text \<open>
  The reverse table of \<open>encoding/hex\<close>: the value of a hexadecimal digit of either case,
  and \<open>0xff\<close> for every other byte.
\<close>

definition reverseHexTable :: "char \<Rightarrow> byte" where
  "reverseHexTable c =
     (if CHR ''0'' \<le> c \<and> c \<le> CHR ''9'' then of_char c - of_char CHR ''0''
      else if CHR ''a'' \<le> c \<and> c \<le> CHR ''f'' then of_char c - of_char CHR ''a'' + 10
      else if CHR ''A'' \<le> c \<and> c \<le> CHR ''F'' then of_char c - of_char CHR ''A'' + 10
      else 0xff)"

text \<open>
  \<open>hex.DecodeString\<close>: the bytes decoded before the first problem, and the error if there
  is one. It reads the characters in pairs; a character that is no hexadecimal digit is
  an \<open>InvalidByteError\<close>, and a last character left alone is \<open>ErrLength\<close> (an invalid
  character is reported first).
\<close>

fun DecodeString :: "string \<Rightarrow> byte list \<times> error option" where
  "DecodeString (p # q # rest) =
     (let a = reverseHexTable p; b = reverseHexTable q
      in if a > 0x0f then ([], Some (InvalidByteError p))
         else if b > 0x0f then ([], Some (InvalidByteError q))
         else (case DecodeString rest of (dst, err) \<Rightarrow> ((push_bit 4 a OR b) # dst, err)))"
| "DecodeString [p] =
     (if reverseHexTable p > 0x0f then ([], Some (InvalidByteError p))
      else ([], Some ErrLength))"
| "DecodeString [] = ([], None)"

section \<open>Helpers of \<open>strings\<close> and of the language\<close>

definition HasPrefix :: "string \<Rightarrow> string \<Rightarrow> bool" where
  "HasPrefix s prefix = (length prefix \<le> length s \<and> take (length prefix) s = prefix)"

text \<open>
  \<open>strings.ToUpper\<close> on ASCII text, which is all the package passes to it (one character
  of a hexadecimal encoding at a time): the letters a to z move to A to Z.
\<close>

definition upper_char :: "char \<Rightarrow> char" where
  "upper_char c =
     (if CHR ''a'' \<le> c \<and> c \<le> CHR ''z'' then char_of (of_char c - (32::nat)) else c)"

definition ToUpper :: "string \<Rightarrow> string" where
  "ToUpper s = map upper_char s"

text \<open>
  \<open>copy(dst[lo:], src)\<close>: slicing panics unless \<open>0 \<le> lo \<le> len(dst)\<close>; the copy then
  overwrites as many elements as both sides have, inside \<open>dst\<close>.
\<close>

definition copy_from :: "byte list \<Rightarrow> int \<Rightarrow> byte list \<Rightarrow> byte list outcome" where
  "copy_from dst lo src =
     (if lo < 0 \<or> int (length dst) < lo then Panics SliceBoundsOutOfRange
      else let k = nat lo; n = min (length dst - k) (length src)
           in Returns (take k dst @ take n src @ drop (k + n) dst))"

section \<open>The package\<close>

subsection \<open>\<open>ToChecksumAddress\<close>\<close>

text \<open>
  The loop \<open>for i, c := range address\<close>: \<open>i\<close> is the index of \<open>c\<close>, \<open>out\<close> the builder.
  Reading \<open>hashHex[i]\<close> past the end of \<open>hashHex\<close> panics.
\<close>

fun checksum_loop :: "string \<Rightarrow> nat \<Rightarrow> string \<Rightarrow> string \<Rightarrow> string outcome" where
  "checksum_loop hashHex i [] out = Returns out"
| "checksum_loop hashHex i (c # cs) out =
     (if length hashHex \<le> i then Panics IndexOutOfRange
      else if CHR ''8'' \<le> hashHex ! i
           then checksum_loop hashHex (i + 1) cs (out @ [hd (ToUpper [c])])
           else checksum_loop hashHex (i + 1) cs (out @ [c]))"

definition ToChecksumAddress :: "byte list \<Rightarrow> string outcome" where
  "ToChecksumAddress a =
     (let address = EncodeToString a;
          hash = Keccak (map of_char address);
          hashHex = EncodeToString hash
      in checksum_loop hashHex 0 address ''0x'')"

subsection \<open>\<open>IsChecksumAddress\<close>\<close>

definition IsChecksumAddress :: "string \<Rightarrow> bool outcome" where
  "IsChecksumAddress address =
     (if \<not> HasPrefix address ''0x'' \<or> length address \<noteq> 42 then Returns False
      else case DecodeString (drop 2 address) of
             (addressHex, Some err) \<Rightarrow> Returns False
           | (addressHex, None) \<Rightarrow>
               (case ToChecksumAddress addressHex of
                  Panics p \<Rightarrow> Panics p
                | Fails err \<Rightarrow> Returns False
                | Returns expectedChecksum \<Rightarrow> Returns (address = expectedChecksum)))"

subsection \<open>\<open>PadHexStringTo32Bytes\<close> and \<open>PadTo32Bytes\<close>\<close>

definition PadHexStringTo32Bytes :: "string \<Rightarrow> byte list outcome" where
  "PadHexStringTo32Bytes hexString =
     (let hexString' = (if HasPrefix hexString ''0x'' then drop 2 hexString else hexString)
      in case DecodeString hexString' of
           (data, Some err) \<Rightarrow> Fails err
         | (data, None) \<Rightarrow> copy_from (replicate 32 0) (32 - int (length data)) data)"

definition PadTo32Bytes :: "byte list \<Rightarrow> byte list outcome" where
  "PadTo32Bytes sender =
     (if 32 \<le> length sender then Returns sender
      else copy_from (replicate 32 0) (32 - int (length sender)) sender)"

subsection \<open>\<open>ConcatBytes\<close>\<close>

text \<open>
  The first loop adds up the lengths for the capacity of \<open>result\<close>, which starts empty;
  the second appends each argument in turn.
\<close>

definition ConcatBytes :: "byte list list \<Rightarrow> byte list" where
  "ConcatBytes bytes =
     (let size = fold (\<lambda>b size. size + length b) bytes 0;
          result = take 0 (replicate size (0::byte))
      in fold (\<lambda>b result. result @ b) bytes result)"

section \<open>Notions of the specification\<close>

text \<open>A hexadecimal digit of either case, and a string that is valid hexadecimal.\<close>

definition is_hex_digit :: "char \<Rightarrow> bool" where
  "is_hex_digit c =
     ((CHR ''0'' \<le> c \<and> c \<le> CHR ''9'') \<or> (CHR ''a'' \<le> c \<and> c \<le> CHR ''f'')
      \<or> (CHR ''A'' \<le> c \<and> c \<le> CHR ''F''))"

definition valid_hex :: "string \<Rightarrow> bool" where
  "valid_hex s = (even (length s) \<and> list_all is_hex_digit s)"

definition is_decimal_digit :: "char \<Rightarrow> bool" where
  "is_decimal_digit c = (CHR ''0'' \<le> c \<and> c \<le> CHR ''9'')"

definition is_hex_letter :: "char \<Rightarrow> bool" where
  "is_hex_letter c = (CHR ''a'' \<le> c \<and> c \<le> CHR ''f'')"

definition is_alpha_hex :: "char \<Rightarrow> bool" where
  "is_alpha_hex c = ((CHR ''a'' \<le> c \<and> c \<le> CHR ''f'') \<or> (CHR ''A'' \<le> c \<and> c \<le> CHR ''F''))"

text \<open>
  Step 3 of the specification's Encode: a letter a to f is put in upper case when the
  character of the hash at the same index is at least \<open>8\<close>; every other character stays.
\<close>

definition checksum_char :: "char \<Rightarrow> char \<Rightarrow> char" where
  "checksum_char c h = (if is_hex_letter c \<and> CHR ''8'' \<le> h then upper_char c else c)"

definition Encode_spec :: "byte list \<Rightarrow> string" where
  "Encode_spec a =
     (let addrHex = EncodeToString a;
          hashHex = EncodeToString (Keccak (map of_char addrHex))
      in ''0x'' @ map (\<lambda>i. checksum_char (addrHex ! i) (hashHex ! i)) [0..<length addrHex])"

text \<open>
  The case variants of an address: \<open>0x\<close> and then the hexadecimal digits of the address,
  each letter in either case.
\<close>

definition lower_char :: "char \<Rightarrow> char" where
  "lower_char c =
     (if CHR ''A'' \<le> c \<and> c \<le> CHR ''Z'' then char_of (of_char c + (32::nat)) else c)"

definition flip_case :: "char \<Rightarrow> char" where
  "flip_case c =
     (if CHR ''a'' \<le> c \<and> c \<le> CHR ''z'' then upper_char c
      else if CHR ''A'' \<le> c \<and> c \<le> CHR ''Z'' then lower_char c
      else c)"

definition case_variant :: "string \<Rightarrow> byte list \<Rightarrow> bool" where
  "case_variant s a = (take 2 s = ''0x'' \<and> map lower_char (drop 2 s) = EncodeToString a)"

text \<open>The optional prefix that \<open>PadHexStringTo32Bytes\<close> strips.\<close>

definition strip_0x :: "string \<Rightarrow> string" where
  "strip_0x s = (if take 2 s = ''0x'' then drop 2 s else s)"

section \<open>Characters, nibbles and the hexadecimal encoding\<close>

lemma char_mem_iff: "c \<in> set s \<longleftrightarrow> (of_char c :: nat) \<in> set (map of_char s)"
  by auto

lemma digit_cases: "CHR ''0'' \<le> c \<and> c \<le> CHR ''9'' \<longleftrightarrow> c \<in> set ''0123456789''"
  unfolding char_mem_iff less_eq_char_def by simp arith

lemma lower_hex_cases: "CHR ''a'' \<le> c \<and> c \<le> CHR ''f'' \<longleftrightarrow> c \<in> set ''abcdef''"
  unfolding char_mem_iff less_eq_char_def by simp arith

lemma upper_hex_cases: "CHR ''A'' \<le> c \<and> c \<le> CHR ''F'' \<longleftrightarrow> c \<in> set ''ABCDEF''"
  unfolding char_mem_iff less_eq_char_def by simp arith

lemma is_hex_digit_cases: "is_hex_digit c \<longleftrightarrow> c \<in> set ''0123456789abcdefABCDEF''"
  unfolding is_hex_digit_def digit_cases lower_hex_cases upper_hex_cases by auto

lemma reverseHexTable_invalid: "\<not> is_hex_digit c \<Longrightarrow> reverseHexTable c = 0xff"
  unfolding is_hex_digit_def reverseHexTable_def by (simp only: de_Morgan_disj if_False split: if_splits)

lemma reverseHexTable_digit: "is_hex_digit c \<Longrightarrow> reverseHexTable c \<le> 0x0f"
  unfolding is_hex_digit_cases by simp (elim disjE; simp add: reverseHexTable_def)

lemma reverseHexTable_valid: "(reverseHexTable c > 0x0f) = (\<not> is_hex_digit c)"
  using reverseHexTable_invalid [of c] reverseHexTable_digit [of c] by (cases "is_hex_digit c") auto


lemma nibble_cases: "n < 16 \<Longrightarrow> n \<in> set [0, 1, 2, 3, 4, 5, 6, 7, 8, 9, 10, 11, 12, 13, 14, 15::nat]"
  by simp arith

lemma hextable_nibble:
  "n < 16 \<Longrightarrow> reverseHexTable (hextable ! n) = of_nat n \<and> hextable ! n \<in> set ''0123456789abcdef''"
  by (drule nibble_cases) (simp, elim disjE; simp add: hextable_def reverseHexTable_def)

lemma hi_nibble_less: "unat (drop_bit 4 (v::byte)) < 16"
proof -
  have "unat (drop_bit 4 v) = unat v div 16" by (simp add: drop_bit_eq_div unat_div)
  moreover have "unat v < 256" using unsigned_less [of v, where ?'a = nat] by simp
  ultimately show ?thesis by simp
qed

lemma lo_nibble_less: "unat ((v::byte) AND 0x0f) < 16"
proof -
  have "unat (v AND 0x0f) \<le> unat (0x0f :: byte)"
    by (rule word_and_le1 [THEN word_le_nat_alt [THEN iffD1]])
  then show ?thesis by simp
qed

lemma nibbles_join: "push_bit 4 (drop_bit 4 v) OR (v AND 0x0f) = (v::byte)"
proof -
  have m: "(0x0f::byte) = mask 4" by (simp add: mask_eq_exp_minus_1)
  show ?thesis unfolding m by (rule bit_word_eqI) (auto simp: bit_simps)
qed


lemma length_EncodeToString: "length (EncodeToString src) = 2 * length src"
  by (induction src) (simp_all add: EncodeToString_def)

lemma EncodeToString_Nil: "EncodeToString [] = []"
  by (simp add: EncodeToString_def)

lemma EncodeToString_Cons:
  "EncodeToString (v # src)
     = hextable ! unat (drop_bit 4 v) # hextable ! unat (v AND 0x0f) # EncodeToString src"
  by (simp add: EncodeToString_def)

lemma set_EncodeToString: "c \<in> set (EncodeToString src) \<Longrightarrow> c \<in> set ''0123456789abcdef''"
proof (induction src)
  case Nil
  then show ?case by (simp add: EncodeToString_Nil)
next
  case (Cons v src)
  from Cons.prems consider "c = hextable ! unat (drop_bit 4 v)" | "c = hextable ! unat (v AND 0x0f)"
    | "c \<in> set (EncodeToString src)"
    by (auto simp: EncodeToString_Cons)
  then show ?case
  proof cases
    case 1
    then show ?thesis using hextable_nibble [OF hi_nibble_less [of v]] by simp
  next
    case 2
    then show ?thesis using hextable_nibble [OF lo_nibble_less [of v]] by simp
  next
    case 3
    then show ?thesis by (rule Cons.IH)
  qed
qed

section \<open>The length of a Keccak digest\<close>

lemma length_theta: "length (theta a) = 25"
  by (simp add: theta_def Let_def)

lemma length_keccak_round: "length (keccak_round r a) = 25"
  by (simp add: keccak_round_def iota_def chi_def)

lemma length_fold_keccak_round: "length a = 25 \<Longrightarrow> length (fold keccak_round rs a) = 25"
  by (induction rs arbitrary: a) (simp_all add: length_keccak_round)

lemma length_keccakF1600: "length a = 25 \<Longrightarrow> length (keccakF1600 a) = 25"
  by (simp add: keccakF1600_def length_fold_keccak_round)

lemma length_xorIn: "length (xorIn a block) = 25"
  by (simp add: xorIn_def)

lemma length_absorb: "length a = 25 \<Longrightarrow> length (absorb a bs) = 25"
proof (induction a bs rule: absorb.induct)
  case (1 a bs)
  show ?case
  proof (cases "length bs < 136")
    case True
    then show ?thesis using "1.prems" by (subst absorb.simps) simp
  next
    case False
    have "length (absorb (keccakF1600 (xorIn a (take 136 bs))) (drop 136 bs)) = 25"
      using False by (intro "1.IH") (simp_all add: length_keccakF1600 length_xorIn)
    then show ?thesis using False by (subst absorb.simps) simp
  qed
qed

lemma length_store64: "length (store64 w) = 8"
  by (simp add: store64_def)

lemma length_concat_store64: "length (concat (map store64 a)) = 8 * length a"
  by (induction a) (simp_all add: length_store64)

lemma length_Keccak: "length (Keccak input) = 32"
  by (simp add: Keccak_def length_concat_store64 length_absorb)


section \<open>The checksum of an address\<close>

lemma checksum_loop_returns:
  "i + length cs \<le> length hashHex \<Longrightarrow>
   checksum_loop hashHex i cs out
     = Returns (out @ map (\<lambda>k. if CHR ''8'' \<le> hashHex ! (i + k) then upper_char (cs ! k) else cs ! k)
                         [0..<length cs])"
proof (induction cs arbitrary: i out)
  case Nil
  then show ?case by simp
next
  case (Cons c cs)
  have step: "Suc i + length cs \<le> length hashHex" using Cons.prems by simp
  show ?case
    using Cons.prems
    by (simp add: Cons.IH [OF step] ToUpper_def map_upt_Suc del: upt_Suc)
qed

lemma checksum_loop_panics:
  "length hashHex < i + length cs \<Longrightarrow> i \<le> length hashHex \<Longrightarrow>
   checksum_loop hashHex i cs out = Panics IndexOutOfRange"
proof (induction cs arbitrary: i out)
  case Nil
  then show ?case by simp
next
  case (Cons c cs)
  show ?case
  proof (cases "length hashHex \<le> i")
    case True
    then show ?thesis by simp
  next
    case False
    have "length hashHex < Suc i + length cs" "Suc i \<le> length hashHex"
      using Cons.prems False by simp_all
    then show ?thesis using False by (simp add: Cons.IH)
  qed
qed

lemma length_hashHex: "length (EncodeToString (Keccak m)) = 64"
  by (simp add: length_EncodeToString length_Keccak)

lemma upper_char_hextable:
  "c \<in> set ''0123456789abcdef'' \<Longrightarrow>
   upper_char c = (if is_hex_letter c then upper_char c else c)
   \<and> lower_char (upper_char c) = c \<and> lower_char c = c
   \<and> (is_hex_letter c \<longrightarrow> upper_char c \<noteq> c)"
  by simp (elim disjE; simp add: upper_char_def lower_char_def is_hex_letter_def char_of_eq_iff less_eq_char_def)

lemma code_char_is_spec_char:
  "c \<in> set ''0123456789abcdef'' \<Longrightarrow>
   (if CHR ''8'' \<le> h then upper_char c else c) = checksum_char c h"
  using upper_char_hextable [of c] by (auto simp: checksum_char_def)

lemma ToChecksumAddress_returns:
  assumes "length a \<le> 32"
  shows "ToChecksumAddress a = Returns (Encode_spec a)"
proof -
  let ?address = "EncodeToString a"
  let ?hashHex = "EncodeToString (Keccak (map of_char ?address))"
  have bound: "0 + length ?address \<le> length ?hashHex"
    using assms by (simp add: length_EncodeToString length_Keccak)
  have same: "map (\<lambda>k. if CHR ''8'' \<le> ?hashHex ! (0 + k) then upper_char (?address ! k) else ?address ! k)
                  [0..<length ?address]
              = map (\<lambda>i. checksum_char (?address ! i) (?hashHex ! i)) [0..<length ?address]"
  proof (rule map_cong [OF refl])
    fix k assume "k \<in> set [0..<length ?address]"
    then have "?address ! k \<in> set ?address" by simp
    then have "?address ! k \<in> set ''0123456789abcdef''" by (rule set_EncodeToString)
    then show "(if CHR ''8'' \<le> ?hashHex ! (0 + k) then upper_char (?address ! k) else ?address ! k)
               = checksum_char (?address ! k) (?hashHex ! k)"
      by (simp only: add_0 code_char_is_spec_char)
  qed
  show ?thesis
    unfolding ToChecksumAddress_def Encode_spec_def Let_def
    by (simp only: checksum_loop_returns [OF bound] same)
qed

lemma ToChecksumAddress_panics:
  assumes "32 < length a"
  shows "ToChecksumAddress a = Panics IndexOutOfRange"
  unfolding ToChecksumAddress_def Let_def
  by (rule checksum_loop_panics) (use assms in \<open>simp_all add: length_EncodeToString length_Keccak\<close>)

text \<open>
  Claim C2, as amended. \<open>ToChecksumAddress\<close> returns a string, and no error, for every
  input of at most 32 bytes, which includes every 20-byte address; the empty input gives
  exactly \<open>0x\<close>.
\<close>

theorem ToChecksumAddress_succeeds_upto_32:
  "(length a \<le> 32 \<longrightarrow> (\<exists>s. ToChecksumAddress a = Returns s))
   \<and> ToChecksumAddress [] = Returns ''0x''"
proof -
  have "ToChecksumAddress [] = Returns ''0x''"
    by (simp add: ToChecksumAddress_def EncodeToString_Nil)
  then show ?thesis by (simp add: ToChecksumAddress_returns)
qed

theorem ToChecksumAddress_succeeds_upto_32_witness:
  "length (replicate 20 (0::byte)) \<le> 32
   \<and> (\<exists>s. ToChecksumAddress (replicate 20 0) = Returns s)"
  using ToChecksumAddress_succeeds_upto_32 [of "replicate 20 0"] by simp

text \<open>
  Claim C2 as stated fails: on an input of 33 bytes the loop reads \<open>hashHex[64]\<close>, one
  past the 64 characters of the hash, and the call panics.
\<close>

theorem ToChecksumAddress_33_bytes_panics:
  "ToChecksumAddress (replicate 33 0) = Panics IndexOutOfRange"
  by (rule ToChecksumAddress_panics) simp

text \<open>
  Claim C3, as amended. For every input of at most 32 bytes, \<open>ToChecksumAddress\<close> returns
  \<open>0x\<close> followed by, for each index \<open>i\<close> of the lower-case hexadecimal encoding of the
  input, the upper-case form of the character when it is a letter a to f and the
  character at index \<open>i\<close> of the hexadecimal Keccak-256 hash of the encoding's ASCII bytes
  is at least \<open>8\<close>, and the character itself otherwise; decimal digits are never changed.
\<close>

theorem ToChecksumAddress_builds_checksum:
  assumes "length a \<le> 32"
  shows "ToChecksumAddress a = Returns (Encode_spec a)
         \<and> length (Encode_spec a) = 2 + 2 * length a
         \<and> take 2 (Encode_spec a) = ''0x''
         \<and> (\<forall>i < 2 * length a.
               Encode_spec a ! (2 + i)
                 = checksum_char (EncodeToString a ! i)
                     (EncodeToString (Keccak (map of_char (EncodeToString a))) ! i)
               \<and> (is_decimal_digit (EncodeToString a ! i)
                    \<longrightarrow> Encode_spec a ! (2 + i) = EncodeToString a ! i))"
proof -
  have digit: "is_decimal_digit c \<Longrightarrow> checksum_char c h = c" for c h
    by (auto simp: is_decimal_digit_def checksum_char_def is_hex_letter_def less_eq_char_def)
  have nth: "Encode_spec a ! (2 + i)
               = checksum_char (EncodeToString a ! i)
                   (EncodeToString (Keccak (map of_char (EncodeToString a))) ! i)"
    if "i < 2 * length a" for i
    using that by (simp add: Encode_spec_def Let_def length_EncodeToString nth_append)
  have ret: "ToChecksumAddress a = Returns (Encode_spec a)"
    using assms by (rule ToChecksumAddress_returns)
  have len: "length (Encode_spec a) = 2 + 2 * length a"
    by (simp add: Encode_spec_def Let_def length_EncodeToString)
  have pre: "take 2 (Encode_spec a) = ''0x''"
    by (simp add: Encode_spec_def Let_def)
  show ?thesis
  proof (intro conjI allI impI)
    fix i assume "i < 2 * length a"
    then show "Encode_spec a ! (2 + i)
                 = checksum_char (EncodeToString a ! i)
                     (EncodeToString (Keccak (map of_char (EncodeToString a))) ! i)"
      by (rule nth)
  next
    fix i assume "i < 2 * length a" and "is_decimal_digit (EncodeToString a ! i)"
    then show "Encode_spec a ! (2 + i) = EncodeToString a ! i"
      by (simp only: nth digit)
  qed (rule ret len pre)+
qed

theorem ToChecksumAddress_builds_checksum_witness:
  "length [0xab :: byte] \<le> 32 \<and> ToChecksumAddress [0xab] = Returns (Encode_spec [0xab])"
  using ToChecksumAddress_builds_checksum [of "[0xab]"] by simp

text \<open>
  Claim C3 as stated fails on an input of 40 bytes: the call panics and builds no output.
\<close>

theorem ToChecksumAddress_40_bytes_no_output:
  "ToChecksumAddress (replicate 40 0xff) = Panics IndexOutOfRange
   \<and> ToChecksumAddress (replicate 40 0xff) \<noteq> Returns (Encode_spec (replicate 40 0xff))"
proof -
  have "ToChecksumAddress (replicate 40 0xff) = Panics IndexOutOfRange"
    by (rule ToChecksumAddress_panics) simp
  then show ?thesis by simp
qed

section \<open>Decoding and validation\<close>

lemma lower_char_upper_hex:
  "lower_char CHR ''A'' = CHR ''a''" "lower_char CHR ''B'' = CHR ''b''"
  "lower_char CHR ''C'' = CHR ''c''" "lower_char CHR ''D'' = CHR ''d''"
  "lower_char CHR ''E'' = CHR ''e''" "lower_char CHR ''F'' = CHR ''f''"
  by (simp_all add: lower_char_def char_of_eq_iff)

lemma reverseHexTable_lower_char:
  assumes "lower_char c \<in> set ''0123456789abcdef''"
  shows "reverseHexTable c = reverseHexTable (lower_char c)"
proof (cases "CHR ''A'' \<le> c \<and> c \<le> CHR ''Z''")
  case True
  let ?n = "of_char c :: nat"
  from True have n: "65 \<le> ?n" "?n \<le> 90" by (simp_all add: less_eq_char_def)
  from True have low: "lower_char c = char_of (?n + 32)" by (simp add: lower_char_def)
  have "(?n + 32) mod 256 = ?n + 32" using n by simp
  then have "of_char (lower_char c) = ?n + 32" by (simp add: low)
  moreover have "(of_char (lower_char c) :: nat) \<in> set (map of_char ''0123456789abcdef'')"
    using assms by (simp only: char_mem_iff)
  ultimately have "?n + 32 \<in> set (map of_char ''0123456789abcdef'')" by simp
  then have "?n \<le> 70" using n by simp arith
  then have "CHR ''A'' \<le> c \<and> c \<le> CHR ''F''" using n by (simp add: less_eq_char_def)
  then have "c \<in> set ''ABCDEF''" by (simp only: upper_hex_cases)
  then show ?thesis
    by simp (elim disjE; simp add: lower_char_upper_hex reverseHexTable_def)
next
  case False
  then show ?thesis by (auto simp: lower_char_def)
qed

lemma DecodeString_pair:
  assumes "reverseHexTable p = drop_bit 4 v" "reverseHexTable q = v AND 0x0f"
    and "DecodeString rest = (dst, None)"
  shows "DecodeString (p # q # rest) = (v # dst, None)"
proof -
  have "\<not> 0x0f < drop_bit 4 v"
    using hi_nibble_less [of v] by (simp add: word_less_nat_alt)
  moreover have "\<not> 0x0f < v AND 0x0f"
    using lo_nibble_less [of v] by (simp add: word_less_nat_alt)
  ultimately show ?thesis using assms by (simp add: nibbles_join)
qed

lemma DecodeString_case_variant:
  "map lower_char u = EncodeToString a \<Longrightarrow> DecodeString u = (a, None)"
proof (induction a arbitrary: u)
  case Nil
  then show ?case by (simp add: EncodeToString_Nil)
next
  case (Cons v a)
  from Cons.prems obtain p q rest where u: "u = p # q # rest"
    and p: "lower_char p = hextable ! unat (drop_bit 4 v)"
    and q: "lower_char q = hextable ! unat (v AND 0x0f)"
    and rest: "map lower_char rest = EncodeToString a"
    by (auto simp: EncodeToString_Cons map_eq_Cons_conv)
  have "reverseHexTable p = drop_bit 4 v"
    using hextable_nibble [OF hi_nibble_less [of v]] reverseHexTable_lower_char [of p] p by simp
  moreover have "reverseHexTable q = v AND 0x0f"
    using hextable_nibble [OF lo_nibble_less [of v]] reverseHexTable_lower_char [of q] q by simp
  ultimately show ?case
    unfolding u using Cons.IH [OF rest] by (rule DecodeString_pair)
qed

lemma DecodeString_valid: "snd (DecodeString t) = None \<longleftrightarrow> valid_hex t"
proof (induction t rule: DecodeString.induct)
  case (1 p q rest)
  then show ?case
    by (auto simp: valid_hex_def Let_def reverseHexTable_valid split: prod.splits)
next
  case (2 p)
  then show ?case by (simp add: valid_hex_def)
next
  case 3
  then show ?case by (simp add: valid_hex_def)
qed

lemma DecodeString_length:
  "DecodeString t = (dst, None) \<Longrightarrow> 2 * length dst = length t"
proof (induction t arbitrary: dst rule: DecodeString.induct)
  case (1 p q rest)
  then show ?case by (auto simp: Let_def split: prod.splits if_splits)
next
  case (2 p)
  then show ?case by (simp split: if_splits)
next
  case 3
  then show ?case by simp
qed


lemma HasPrefix_0x: "HasPrefix s ''0x'' \<longleftrightarrow> take 2 s = ''0x''"
proof
  assume "HasPrefix s ''0x''"
  then show "take 2 s = ''0x''" by (simp add: HasPrefix_def numeral_2_eq_2)
next
  assume t: "take 2 s = ''0x''"
  then have "length (take 2 s) = 2" by simp
  then have "2 \<le> length s" by simp
  then show "HasPrefix s ''0x''" using t by (simp add: HasPrefix_def numeral_2_eq_2)
qed

lemma lower_checksum_char:
  "c \<in> set ''0123456789abcdef'' \<Longrightarrow> lower_char (checksum_char c h) = c"
  using upper_char_hextable [of c] by (simp add: checksum_char_def)

lemma Encode_spec_case_variant: "case_variant (Encode_spec a) a"
proof -
  let ?address = "EncodeToString a"
  let ?hashHex = "EncodeToString (Keccak (map of_char ?address))"
  have "map (\<lambda>i. lower_char (checksum_char (?address ! i) (?hashHex ! i))) [0..<length ?address]
          = map (\<lambda>i. ?address ! i) [0..<length ?address]"
  proof (rule map_cong [OF refl])
    fix k assume "k \<in> set [0..<length ?address]"
    then have "?address ! k \<in> set ?address" by simp
    then have "?address ! k \<in> set ''0123456789abcdef''" by (rule set_EncodeToString)
    then show "lower_char (checksum_char (?address ! k) (?hashHex ! k)) = ?address ! k"
      by (rule lower_checksum_char)
  qed
  then show ?thesis
    by (simp add: case_variant_def Encode_spec_def Let_def o_def map_nth)
qed

lemma case_variant_length: "case_variant s a \<Longrightarrow> length s = 2 + 2 * length a"
proof -
  assume cv: "case_variant s a"
  then have "length (take 2 s) = 2" by (simp add: case_variant_def)
  then have two: "2 \<le> length s" by simp
  from cv have "length (map lower_char (drop 2 s)) = length (EncodeToString a)"
    by (simp add: case_variant_def)
  then have "length s - 2 = 2 * length a" by (simp add: length_EncodeToString)
  then show ?thesis using two by simp
qed

lemma IsChecksumAddress_case_variant:
  assumes "length a = 20" and "case_variant s a"
  shows "IsChecksumAddress s = Returns (s = Encode_spec a)"
proof -
  have len: "length s = 42" using case_variant_length [OF assms(2)] assms(1) by simp
  have pre: "HasPrefix s ''0x''" using assms(2) by (simp add: HasPrefix_0x case_variant_def)
  have dec: "DecodeString (drop 2 s) = (a, None)"
    using assms(2) by (intro DecodeString_case_variant) (simp add: case_variant_def)
  have enc: "ToChecksumAddress a = Returns (Encode_spec a)"
    using assms(1) by (intro ToChecksumAddress_returns) simp
  show ?thesis by (simp add: IsChecksumAddress_def len pre dec enc)
qed

text \<open>
  Claim C1. For every 20-byte address \<open>a\<close>, \<open>ToChecksumAddress\<close> returns a string, and
  \<open>IsChecksumAddress\<close> returns true on that string.
\<close>

theorem IsChecksumAddress_ToChecksumAddress:
  assumes "length a = 20"
  shows "\<exists>s. ToChecksumAddress a = Returns s \<and> IsChecksumAddress s = Returns True"
proof -
  have "ToChecksumAddress a = Returns (Encode_spec a)"
    using assms by (intro ToChecksumAddress_returns) simp
  moreover have "IsChecksumAddress (Encode_spec a) = Returns True"
    using IsChecksumAddress_case_variant [OF assms Encode_spec_case_variant] by simp
  ultimately show ?thesis by blast
qed

theorem IsChecksumAddress_ToChecksumAddress_witness:
  "length (replicate 20 (0x5a::byte)) = 20
   \<and> (\<exists>s. ToChecksumAddress (replicate 20 0x5a) = Returns s \<and> IsChecksumAddress s = Returns True)"
  using IsChecksumAddress_ToChecksumAddress [of "replicate 20 0x5a"] by simp

lemma IsChecksumAddress_decoded:
  assumes "take 2 s = ''0x''" "length s = 42" "valid_hex (drop 2 s)"
  shows "\<exists>a. DecodeString (drop 2 s) = (a, None) \<and> length a = 20
             \<and> ToChecksumAddress a = Returns (Encode_spec a)
             \<and> IsChecksumAddress s = Returns (s = Encode_spec a)"
proof -
  obtain a err where d: "DecodeString (drop 2 s) = (a, err)" by (cases "DecodeString (drop 2 s)")
  have "snd (DecodeString (drop 2 s)) = None" using assms(3) by (simp only: DecodeString_valid)
  then have dec: "DecodeString (drop 2 s) = (a, None)" using d by simp
  have "2 * length a = length (drop 2 s)" using dec by (rule DecodeString_length)
  then have len: "length a = 20" using assms(2) by simp
  have enc: "ToChecksumAddress a = Returns (Encode_spec a)"
    using len by (intro ToChecksumAddress_returns) simp
  have "IsChecksumAddress s = Returns (s = Encode_spec a)"
    using assms(1,2) by (simp add: IsChecksumAddress_def HasPrefix_0x dec enc)
  then show ?thesis using dec len enc by blast
qed

lemma IsChecksumAddress_rejects:
  assumes "take 2 s \<noteq> ''0x'' \<or> length s \<noteq> 42 \<or> \<not> valid_hex (drop 2 s)"
  shows "IsChecksumAddress s = Returns False"
proof (cases "take 2 s \<noteq> ''0x'' \<or> length s \<noteq> 42")
  case True
  then show ?thesis by (auto simp: IsChecksumAddress_def HasPrefix_0x)
next
  case False
  then have "\<not> valid_hex (drop 2 s)" using assms by blast
  then have "snd (DecodeString (drop 2 s)) \<noteq> None" by (simp add: DecodeString_valid)
  then obtain a err where "DecodeString (drop 2 s) = (a, Some err)"
    by (cases "DecodeString (drop 2 s)") auto
  then show ?thesis by (simp add: IsChecksumAddress_def)
qed

section \<open>Validation of checksummed strings\<close>

lemma EncodeToString_replicate_0:
  "EncodeToString (replicate n 0) = replicate (2 * n) CHR ''0''"
  by (induction n) (simp_all add: EncodeToString_Nil EncodeToString_Cons hextable_def)

lemma Encode_spec_zero:
  "Encode_spec (replicate 20 0) = ''0x'' @ replicate 40 CHR ''0''"
proof -
  have "map (\<lambda>i. checksum_char (replicate 40 CHR ''0'' ! i) (h ! i)) [0..<40]
          = map (\<lambda>i. CHR ''0'') [0..<40]" for h
    by (rule map_cong [OF refl]) (simp add: checksum_char_def is_hex_letter_def)
  then show ?thesis
    by (simp add: Encode_spec_def Let_def EncodeToString_replicate_0 map_replicate_const)
qed

lemma zero_address_valid:
  "IsChecksumAddress (''0x'' @ replicate 40 CHR ''0'') = Returns True"
  using IsChecksumAddress_case_variant [OF _ Encode_spec_case_variant, of "replicate 20 0"]
  by (simp add: Encode_spec_zero)

text \<open>
  Claim C4. \<open>IsChecksumAddress\<close> returns false, and neither an error nor a panic, on a
  string that does not start with \<open>0x\<close>, or whose length is not 42, or whose tail of 40
  characters is not valid hexadecimal. On every other string the tail decodes to 20 bytes,
  and the result is true exactly when the string equals, character for character, what
  \<open>ToChecksumAddress\<close> returns on these bytes.
\<close>

theorem IsChecksumAddress_spec:
  "(take 2 s \<noteq> ''0x'' \<or> length s \<noteq> 42 \<or> \<not> valid_hex (drop 2 s)
      \<longrightarrow> IsChecksumAddress s = Returns False)
   \<and> (take 2 s = ''0x'' \<and> length s = 42 \<and> valid_hex (drop 2 s)
      \<longrightarrow> (\<exists>a e. DecodeString (drop 2 s) = (a, None) \<and> length a = 20
                 \<and> ToChecksumAddress a = Returns e
                 \<and> IsChecksumAddress s = Returns (s = e)))"
proof (intro conjI impI)
  assume "take 2 s \<noteq> ''0x'' \<or> length s \<noteq> 42 \<or> \<not> valid_hex (drop 2 s)"
  then show "IsChecksumAddress s = Returns False" by (rule IsChecksumAddress_rejects)
next
  assume "take 2 s = ''0x'' \<and> length s = 42 \<and> valid_hex (drop 2 s)"
  then show "\<exists>a e. DecodeString (drop 2 s) = (a, None) \<and> length a = 20
                 \<and> ToChecksumAddress a = Returns e
                 \<and> IsChecksumAddress s = Returns (s = e)"
    using IsChecksumAddress_decoded [of s] by blast
qed

theorem IsChecksumAddress_spec_witness:
  "take 2 ''1x00'' \<noteq> ''0x'' \<and> IsChecksumAddress ''1x00'' = Returns False
   \<and> take 2 (''0x'' @ replicate 40 CHR ''0'') = ''0x''
   \<and> length (''0x'' @ replicate 40 CHR ''0'') = 42
   \<and> valid_hex (drop 2 (''0x'' @ replicate 40 CHR ''0''))
   \<and> (\<exists>a e. DecodeString (drop 2 (''0x'' @ replicate 40 CHR ''0'')) = (a, None) \<and> length a = 20
          \<and> ToChecksumAddress a = Returns e
          \<and> IsChecksumAddress (''0x'' @ replicate 40 CHR ''0'')
                = Returns (''0x'' @ replicate 40 CHR ''0'' = e))"
proof -
  have v: "valid_hex (drop 2 (''0x'' @ replicate 40 CHR ''0''))"
    by (simp add: valid_hex_def is_hex_digit_def list_all_iff)
  show ?thesis
    using IsChecksumAddress_spec [of "''1x00''"]
      IsChecksumAddress_spec [of "''0x'' @ replicate 40 CHR ''0''"] v
    by simp
qed

text \<open>
  Claim C10. \<open>IsChecksumAddress\<close> returns a boolean on every string and never panics:
  whenever it reaches \<open>ToChecksumAddress\<close>, the decoded slice has exactly 20 bytes, on
  which \<open>ToChecksumAddress\<close> returns.
\<close>

theorem IsChecksumAddress_total:
  "(\<exists>b. IsChecksumAddress s = Returns b)
   \<and> (\<forall>a. HasPrefix s ''0x'' \<and> length s = 42 \<and> DecodeString (drop 2 s) = (a, None)
          \<longrightarrow> length a = 20 \<and> (\<exists>e. ToChecksumAddress a = Returns e))"
proof
  show "\<exists>b. IsChecksumAddress s = Returns b"
  proof (cases "take 2 s = ''0x'' \<and> length s = 42 \<and> valid_hex (drop 2 s)")
    case True
    then show ?thesis using IsChecksumAddress_decoded [of s] by blast
  next
    case False
    then have "IsChecksumAddress s = Returns False" by (intro IsChecksumAddress_rejects) blast
    then show ?thesis by blast
  qed
next
  show "\<forall>a. HasPrefix s ''0x'' \<and> length s = 42 \<and> DecodeString (drop 2 s) = (a, None)
          \<longrightarrow> length a = 20 \<and> (\<exists>e. ToChecksumAddress a = Returns e)"
  proof (intro allI impI)
    fix a
    assume h: "HasPrefix s ''0x'' \<and> length s = 42 \<and> DecodeString (drop 2 s) = (a, None)"
    then have "2 * length a = length (drop 2 s)" by (intro DecodeString_length) simp
    then have len: "length a = 20" using h by simp
    then have "ToChecksumAddress a = Returns (Encode_spec a)"
      by (intro ToChecksumAddress_returns) simp
    then show "length a = 20 \<and> (\<exists>e. ToChecksumAddress a = Returns e)" using len by blast
  qed
qed

theorem IsChecksumAddress_total_witness:
  "HasPrefix (''0x'' @ replicate 40 CHR ''0'') ''0x''
   \<and> length (''0x'' @ replicate 40 CHR ''0'') = 42
   \<and> DecodeString (drop 2 (''0x'' @ replicate 40 CHR ''0'')) = (replicate 20 0, None)
   \<and> (\<exists>e. ToChecksumAddress (replicate 20 0) = Returns e)
   \<and> (\<exists>b. IsChecksumAddress (''0x'' @ replicate 40 CHR ''0'') = Returns b)"
proof -
  have d: "DecodeString (drop 2 (''0x'' @ replicate 40 CHR ''0'')) = (replicate 20 0, None)"
    using Encode_spec_case_variant [of "replicate 20 0"]
    by (intro DecodeString_case_variant) (simp add: case_variant_def Encode_spec_zero)
  have p: "HasPrefix (''0x'' @ replicate 40 CHR ''0'') ''0x''"
    by (simp add: HasPrefix_0x)
  show ?thesis
    using IsChecksumAddress_total [of "''0x'' @ replicate 40 CHR ''0''"] d p by simp
qed


lemma upper_char_lower_hex:
  "upper_char CHR ''a'' = CHR ''A''" "upper_char CHR ''b'' = CHR ''B''"
  "upper_char CHR ''c'' = CHR ''C''" "upper_char CHR ''d'' = CHR ''D''"
  "upper_char CHR ''e'' = CHR ''E''" "upper_char CHR ''f'' = CHR ''F''"
  by (simp_all add: upper_char_def char_of_eq_iff)

lemma is_alpha_hex_cases: "is_alpha_hex c \<longleftrightarrow> c \<in> set ''abcdefABCDEF''"
  unfolding is_alpha_hex_def lower_hex_cases upper_hex_cases by auto

lemma flip_case_alpha_hex:
  assumes "is_alpha_hex c"
  shows "flip_case c \<noteq> c \<and> lower_char (flip_case c) = lower_char c"
proof -
  have low: "lower_char d = d" if "d \<in> set ''abcdef''" for d
    using that by (auto simp: lower_char_def)
  from assms have "c \<in> set ''abcdefABCDEF''" by (simp only: is_alpha_hex_cases)
  then show ?thesis
    by simp (elim disjE;
             simp add: flip_case_def upper_char_lower_hex lower_char_upper_hex low)
qed

lemma prefix_not_alpha_hex: "\<not> is_alpha_hex CHR ''0''" "\<not> is_alpha_hex CHR ''x''"
  by (simp_all add: is_alpha_hex_def)

lemma flipped_is_case_variant:
  assumes cv: "case_variant s a" and i: "i < length s" and al: "is_alpha_hex (s ! i)"
  shows "case_variant (s[i := flip_case (s ! i)]) a \<and> s[i := flip_case (s ! i)] \<noteq> s"
proof -
  from cv have pre: "take 2 s = ''0x''" and tail: "map lower_char (drop 2 s) = EncodeToString a"
    by (simp_all add: case_variant_def)
  from pre have "length (take 2 s) = 2" by simp
  then have two: "2 \<le> length s" by simp
  have s0: "s ! 0 = CHR ''0''" and s1: "s ! 1 = CHR ''x''"
    using pre two nth_take [of 0 2 s] nth_take [of 1 2 s] by simp_all
  have "i \<noteq> 0"
  proof
    assume "i = 0"
    then show False using al s0 prefix_not_alpha_hex(1) by simp
  qed
  moreover have "i \<noteq> 1"
  proof
    assume "i = 1"
    then show False using al s1 prefix_not_alpha_hex(2) by simp
  qed
  ultimately have ge: "2 \<le> i" by simp
  have differs: "s[i := flip_case (s ! i)] \<noteq> s"
  proof
    assume "s[i := flip_case (s ! i)] = s"
    then have "s[i := flip_case (s ! i)] ! i = s ! i" by simp
    then have "flip_case (s ! i) = s ! i" using i by simp
    then show False using flip_case_alpha_hex [OF al] by simp
  qed
  have "map lower_char (drop 2 (s[i := flip_case (s ! i)]))
          = (map lower_char (drop 2 s))[i - 2 := lower_char (flip_case (s ! i))]"
    using ge by (simp add: drop_update_swap map_update)
  also have "\<dots> = (map lower_char (drop 2 s))[i - 2 := (map lower_char (drop 2 s)) ! (i - 2)]"
  proof -
    have idx: "2 + (i - 2) = i" using ge by simp
    have "i - 2 < length (drop 2 s)" using ge i by simp
    then have "map lower_char (drop 2 s) ! (i - 2) = lower_char (drop 2 s ! (i - 2))"
      by (rule nth_map)
    also have "drop 2 s ! (i - 2) = s ! i" using two by (simp only: nth_drop idx)
    finally show ?thesis using flip_case_alpha_hex [OF al] by simp
  qed
  also have "\<dots> = map lower_char (drop 2 s)" by (rule list_update_id)
  finally have "map lower_char (drop 2 (s[i := flip_case (s ! i)])) = EncodeToString a"
    using tail by simp
  moreover have "take 2 (s[i := flip_case (s ! i)]) = ''0x''"
    using ge pre by simp
  ultimately show ?thesis using differs by (simp add: case_variant_def)
qed

text \<open>
  Claim C5. For a 20-byte address \<open>a\<close>, the string \<open>s\<close> that \<open>ToChecksumAddress\<close> returns is
  a case variant of the hexadecimal digits of \<open>a\<close> and is accepted by
  \<open>IsChecksumAddress\<close>; every other case variant is rejected; in particular, flipping
  the case of one alphabetic hexadecimal character of \<open>s\<close> gives a string that is rejected.
\<close>

theorem checksum_unique:
  assumes "length a = 20"
  shows "\<exists>s. ToChecksumAddress a = Returns s \<and> case_variant s a
            \<and> IsChecksumAddress s = Returns True
            \<and> (\<forall>t. case_variant t a \<and> t \<noteq> s \<longrightarrow> IsChecksumAddress t = Returns False)
            \<and> (\<forall>i < length s. is_alpha_hex (s ! i)
                   \<longrightarrow> IsChecksumAddress (s[i := flip_case (s ! i)]) = Returns False)"
proof (intro exI conjI allI impI)
  show "ToChecksumAddress a = Returns (Encode_spec a)"
    using assms by (intro ToChecksumAddress_returns) simp
  show "case_variant (Encode_spec a) a" by (rule Encode_spec_case_variant)
  show "IsChecksumAddress (Encode_spec a) = Returns True"
    using IsChecksumAddress_case_variant [OF assms Encode_spec_case_variant] by simp
next
  fix t assume "case_variant t a \<and> t \<noteq> Encode_spec a"
  then show "IsChecksumAddress t = Returns False"
    using IsChecksumAddress_case_variant [OF assms, of t] by simp
next
  fix i assume "i < length (Encode_spec a)" and "is_alpha_hex (Encode_spec a ! i)"
  then have "case_variant ((Encode_spec a)[i := flip_case (Encode_spec a ! i)]) a
             \<and> (Encode_spec a)[i := flip_case (Encode_spec a ! i)] \<noteq> Encode_spec a"
    by (intro flipped_is_case_variant Encode_spec_case_variant)
  then show "IsChecksumAddress ((Encode_spec a)[i := flip_case (Encode_spec a ! i)]) = Returns False"
    using IsChecksumAddress_case_variant [OF assms, of "(Encode_spec a)[i := flip_case (Encode_spec a ! i)]"]
    by simp
qed


lemma Encode_spec_aa_letter: "is_alpha_hex (Encode_spec (replicate 20 0xaa) ! 2)"
proof -
  have hi: "hextable ! unat (drop_bit 4 (0xaa::byte)) = CHR ''a''" by code_simp
  have "(20::nat) = Suc 19" by simp
  then have "replicate 20 (0xaa::byte) = 0xaa # replicate 19 0xaa"
    by (simp only: replicate_Suc)
  then have "EncodeToString (replicate 20 (0xaa::byte)) ! 0 = CHR ''a''"
    by (simp only: EncodeToString_Cons nth_Cons_0 hi)
  then have "Encode_spec (replicate 20 0xaa) ! 2 = checksum_char CHR ''a''
               (EncodeToString (Keccak (map of_char (EncodeToString (replicate 20 (0xaa::byte))))) ! 0)"
    by (simp add: Encode_spec_def Let_def length_EncodeToString nth_append)
  then show ?thesis
    by (simp add: checksum_char_def upper_char_lower_hex is_alpha_hex_def)
qed

theorem checksum_unique_witness:
  "length (replicate 20 (0xaa::byte)) = 20
   \<and> (\<exists>s. ToChecksumAddress (replicate 20 0xaa) = Returns s
          \<and> IsChecksumAddress s = Returns True
          \<and> 2 < length s \<and> is_alpha_hex (s ! 2)
          \<and> IsChecksumAddress (s[2 := flip_case (s ! 2)]) = Returns False)"
proof -
  have len: "length (replicate 20 (0xaa::byte)) = 20" by simp
  from checksum_unique [OF len] obtain s where
    s: "ToChecksumAddress (replicate 20 0xaa) = Returns s" "case_variant s (replicate 20 0xaa)"
      "IsChecksumAddress s = Returns True"
      "\<forall>i < length s. is_alpha_hex (s ! i)
          \<longrightarrow> IsChecksumAddress (s[i := flip_case (s ! i)]) = Returns False"
    by blast
  have "ToChecksumAddress (replicate 20 0xaa) = Returns (Encode_spec (replicate 20 0xaa))"
    by (intro ToChecksumAddress_returns) simp
  then have eq: "s = Encode_spec (replicate 20 0xaa)" using s(1) by simp
  have l: "2 < length s" using case_variant_length [OF s(2)] by simp
  have al: "is_alpha_hex (s ! 2)" unfolding eq by (rule Encode_spec_aa_letter)
  have "IsChecksumAddress (s[2 := flip_case (s ! 2)]) = Returns False"
    using s(4) l al by blast
  then show ?thesis using s(1,3) l al len by blast
qed

section \<open>Concatenation\<close>

lemma fold_append_concat: "fold (\<lambda>b result. result @ b) bytes acc = acc @ concat bytes"
  by (induction bytes arbitrary: acc) simp_all

lemma fold_size_sum:
  "fold (\<lambda>b size. size + length b) bytes n = n + sum_list (map length bytes)"
  by (induction bytes arbitrary: n) simp_all

lemma ConcatBytes_concat: "ConcatBytes bytes = concat bytes"
  by (simp add: ConcatBytes_def fold_append_concat)

text \<open>
  Claim C9. \<open>ConcatBytes\<close> returns all bytes of its arguments in the order given, with
  nothing between them; the length of the result is the sum of the lengths of the
  arguments (the capacity the first loop computes); two arguments give the first followed
  by the second, and no argument gives the empty sequence.
\<close>

theorem ConcatBytes_spec:
  "ConcatBytes bytes = concat bytes
   \<and> length (ConcatBytes bytes) = fold (\<lambda>b size. size + length b) bytes 0
   \<and> length (ConcatBytes bytes) = sum_list (map length bytes)
   \<and> ConcatBytes [a, b] = a @ b
   \<and> length (ConcatBytes [a, b]) = length a + length b
   \<and> ConcatBytes [] = []"
  by (simp add: ConcatBytes_concat fold_size_sum length_concat)

section \<open>Padding to 32 bytes\<close>

lemma copy_from_pad:
  "length src \<le> 32 \<Longrightarrow>
   copy_from (replicate 32 0) (32 - int (length src)) src
     = Returns (replicate (32 - length src) 0 @ src)"
  by (simp add: copy_from_def Let_def nat_diff_distrib' min_def)

lemma PadTo32Bytes_short:
  "length x < 32 \<Longrightarrow> PadTo32Bytes x = Returns (replicate (32 - length x) 0 @ x)"
  by (simp add: PadTo32Bytes_def copy_from_pad)

lemma PadTo32Bytes_long: "32 \<le> length x \<Longrightarrow> PadTo32Bytes x = Returns x"
  by (simp add: PadTo32Bytes_def)

text \<open>
  Claim C6. \<open>PadTo32Bytes\<close> is idempotent: it returns some \<open>y\<close>, and applied to \<open>y\<close> it
  returns \<open>y\<close> again. An input of 32 bytes or more comes back unchanged, not truncated; a
  shorter input comes back as 32 bytes, zero bytes first and the input at the end.
\<close>

theorem PadTo32Bytes_idempotent:
  "(\<exists>y. PadTo32Bytes x = Returns y \<and> PadTo32Bytes y = Returns y)
   \<and> (32 \<le> length x \<longrightarrow> PadTo32Bytes x = Returns x)
   \<and> (length x < 32 \<longrightarrow>
        PadTo32Bytes x = Returns (replicate (32 - length x) 0 @ x)
        \<and> length (replicate (32 - length x) (0::byte) @ x) = 32)"
proof (cases "32 \<le> length x")
  case True
  then show ?thesis by (simp add: PadTo32Bytes_long)
next
  case False
  then have short: "length x < 32" by simp
  have "PadTo32Bytes (replicate (32 - length x) 0 @ x)
          = Returns (replicate (32 - length x) 0 @ x)"
    using short by (intro PadTo32Bytes_long) simp
  then show ?thesis using short by (simp add: PadTo32Bytes_short)
qed

theorem PadTo32Bytes_idempotent_witness:
  "length [0x12, 0x34 :: byte] < 32
   \<and> PadTo32Bytes [0x12, 0x34] = Returns (replicate 30 0 @ [0x12, 0x34])
   \<and> 32 \<le> length (replicate 33 (7::byte))
   \<and> PadTo32Bytes (replicate 33 7) = Returns (replicate 33 7)"
  using PadTo32Bytes_idempotent [of "[0x12, 0x34]"] PadTo32Bytes_idempotent [of "replicate 33 7"]
  by simp

section \<open>Padding a hexadecimal string to 32 bytes\<close>

lemma PadHex_example: "PadHexStringTo32Bytes ''0x1234'' = Returns (replicate 30 0 @ [0x12, 0x34])"
  by code_simp

lemma PadHex_zz: "PadHexStringTo32Bytes ''zz'' = Fails (InvalidByteError CHR ''z'')"
  by code_simp

text \<open>
  Claim C8 against the code. The claim wants the rightmost 32 bytes of a longer decoded
  input; the code slices \<open>paddedData[32-len(data):]\<close> with a negative index and panics.
  Here the input is \<open>0x\<close> and 33 bytes \<open>0x11\<close>.
\<close>

theorem PadHexStringTo32Bytes_33_bytes_panics:
  "PadHexStringTo32Bytes (''0x'' @ replicate 66 CHR ''1'') = Panics SliceBoundsOutOfRange"
  by code_simp

lemma strip_0x_code:
  "(if HasPrefix s ''0x'' then drop 2 s else s) = strip_0x s"
  by (simp add: strip_0x_def HasPrefix_0x)

lemma PadHex_fails_iff:
  "(\<exists>e. PadHexStringTo32Bytes s = Fails e) \<longleftrightarrow> \<not> valid_hex (strip_0x s)"
proof -
  obtain data err where d: "DecodeString (strip_0x s) = (data, err)"
    by (cases "DecodeString (strip_0x s)")
  have v: "valid_hex (strip_0x s) \<longleftrightarrow> err = None"
    using DecodeString_valid [of "strip_0x s"] d by simp
  show ?thesis
  proof (cases err)
    case None
    then show ?thesis
      using d v by (simp add: PadHexStringTo32Bytes_def strip_0x_code copy_from_def Let_def)
  next
    case (Some e)
    then show ?thesis using d v by (simp add: PadHexStringTo32Bytes_def strip_0x_code)
  qed
qed

lemma PadHex_pads:
  assumes "valid_hex (strip_0x s)" "length (strip_0x s) \<le> 64"
  shows "\<exists>data. DecodeString (strip_0x s) = (data, None) \<and> length data \<le> 32
           \<and> PadHexStringTo32Bytes s = Returns (replicate (32 - length data) 0 @ data)"
proof -
  obtain data err where d: "DecodeString (strip_0x s) = (data, err)"
    by (cases "DecodeString (strip_0x s)")
  have "snd (DecodeString (strip_0x s)) = None" using assms(1) by (simp only: DecodeString_valid)
  then have dec: "DecodeString (strip_0x s) = (data, None)" using d by simp
  have "2 * length data = length (strip_0x s)" using dec by (rule DecodeString_length)
  then have len: "length data \<le> 32" using assms(2) by simp
  have "PadHexStringTo32Bytes s = Returns (replicate (32 - length data) 0 @ data)"
    by (simp add: PadHexStringTo32Bytes_def strip_0x_code dec copy_from_pad [OF len])
  then show ?thesis using dec len by blast
qed


lemma PadHex_panics:
  assumes "valid_hex (strip_0x s)" "64 < length (strip_0x s)"
  shows "PadHexStringTo32Bytes s = Panics SliceBoundsOutOfRange"
proof -
  obtain data err where d: "DecodeString (strip_0x s) = (data, err)"
    by (cases "DecodeString (strip_0x s)")
  have "snd (DecodeString (strip_0x s)) = None" using assms(1) by (simp only: DecodeString_valid)
  then have dec: "DecodeString (strip_0x s) = (data, None)" using d by simp
  have "2 * length data = length (strip_0x s)" using dec by (rule DecodeString_length)
  then have "32 < length data" using assms(2) by simp
  then show ?thesis
    by (simp add: PadHexStringTo32Bytes_def strip_0x_code dec copy_from_def)
qed

text \<open>
  Claim C7. \<open>PadHexStringTo32Bytes\<close> strips an optional \<open>0x\<close>; it fails with an error of
  the hexadecimal decoder exactly when what remains is not valid hexadecimal (a character
  that is no hexadecimal digit, or an odd length); otherwise, when the decoded data has at
  most 32 bytes, it returns exactly 32 bytes, zero bytes first and the data at the end.
  On \<open>0x1234\<close> that is 30 zero bytes and then \<open>0x12, 0x34\<close>.
\<close>

theorem PadHexStringTo32Bytes_spec:
  "((\<exists>e. PadHexStringTo32Bytes s = Fails e) \<longleftrightarrow> \<not> valid_hex (strip_0x s))
   \<and> (valid_hex (strip_0x s) \<and> length (strip_0x s) \<le> 64 \<longrightarrow>
        (\<exists>data. DecodeString (strip_0x s) = (data, None) \<and> length data \<le> 32
           \<and> PadHexStringTo32Bytes s = Returns (replicate (32 - length data) 0 @ data)
           \<and> length (replicate (32 - length data) (0::byte) @ data) = 32))
   \<and> PadHexStringTo32Bytes ''0x1234'' = Returns (replicate 30 0 @ [0x12, 0x34])"
proof (intro conjI impI)
  show "(\<exists>e. PadHexStringTo32Bytes s = Fails e) \<longleftrightarrow> \<not> valid_hex (strip_0x s)"
    by (rule PadHex_fails_iff)
next
  assume "valid_hex (strip_0x s) \<and> length (strip_0x s) \<le> 64"
  then obtain data where "DecodeString (strip_0x s) = (data, None)" "length data \<le> 32"
    "PadHexStringTo32Bytes s = Returns (replicate (32 - length data) 0 @ data)"
    using PadHex_pads [of s] by blast
  then show "\<exists>data. DecodeString (strip_0x s) = (data, None) \<and> length data \<le> 32
           \<and> PadHexStringTo32Bytes s = Returns (replicate (32 - length data) 0 @ data)
           \<and> length (replicate (32 - length data) (0::byte) @ data) = 32"
    by auto
next
  show "PadHexStringTo32Bytes ''0x1234'' = Returns (replicate 30 0 @ [0x12, 0x34])"
    by (rule PadHex_example)
qed

theorem PadHexStringTo32Bytes_spec_witness:
  "valid_hex (strip_0x ''0x1234'') \<and> length (strip_0x ''0x1234'') \<le> 64
   \<and> DecodeString (strip_0x ''0x1234'') = ([0x12, 0x34], None)
   \<and> PadHexStringTo32Bytes ''0x1234'' = Returns (replicate 30 0 @ [0x12, 0x34])
   \<and> \<not> valid_hex (strip_0x ''zz'')
   \<and> (\<exists>e. PadHexStringTo32Bytes ''zz'' = Fails e)"
proof -
  have v: "valid_hex (strip_0x ''0x1234'')" "\<not> valid_hex (strip_0x ''zz'')"
    by (simp_all add: strip_0x_def valid_hex_def is_hex_digit_def)
  have d: "DecodeString (strip_0x ''0x1234'') = ([0x12, 0x34], None)"
    by (simp add: strip_0x_def reverseHexTable_def)
  show ?thesis
    using PadHexStringTo32Bytes_spec [of "''0x1234''"] PadHexStringTo32Bytes_spec [of "''zz''"] v d
    by (simp add: strip_0x_def)
qed

end
